theory Spec2Isabelle
  imports Main "HOL-Library.Word" "HOL-Library.More_List"
begin

section \<open>Strings of the source language\<close>

text \<open>
  A string of the source is a sequence of UTF-16 code units; \<open>length\<close> counts code
  units. A literal is written through \<open>js\<close>, which embeds an ASCII string.
\<close>

type_synonym code_unit = "16 word"
type_synonym jsstring = "code_unit list"

definition js :: "string \<Rightarrow> jsstring" where
  "js s = map (\<lambda>c. of_nat (of_char c)) s"

definition NL :: code_unit where
  "NL = 0x0A"

definition SP :: code_unit where
  "SP = 0x20"

text \<open>
  The characters that \<open>String.prototype.trim\<close> and \<open>trimLeft\<close> strip: the WhiteSpace
  and LineTerminator productions of the language (tab, line feed, vertical tab, form feed,
  carriage return, space, no-break space, the Unicode space separators, line and
  paragraph separator, and the byte order mark). All of them are single code units.
\<close>

definition isWhite :: "code_unit \<Rightarrow> bool" where
  "isWhite c \<longleftrightarrow>
     c = 0x09 \<or> c = 0x0A \<or> c = 0x0B \<or> c = 0x0C \<or> c = 0x0D \<or> c = 0x20 \<or>
     c = 0xA0 \<or> c = 0x1680 \<or> (0x2000 \<le> c \<and> c \<le> 0x200A) \<or>
     c = 0x2028 \<or> c = 0x2029 \<or> c = 0x202F \<or> c = 0x205F \<or> c = 0x3000 \<or>
     c = 0xFEFF"

definition trimLeft :: "jsstring \<Rightarrow> jsstring" where
  "trimLeft s = dropWhile isWhite s"

definition trimRight :: "jsstring \<Rightarrow> jsstring" where
  "trimRight s = rev (dropWhile isWhite (rev s))"

definition trim :: "jsstring \<Rightarrow> jsstring" where
  "trim s = trimRight (trimLeft s)"

text \<open>\<open>str.split('\n')\<close>: a string with n line feeds gives n + 1 lines.\<close>

fun split_nl :: "jsstring \<Rightarrow> jsstring list" where
  "split_nl [] = [[]]"
| "split_nl (c # cs) =
     (if c = NL then [] # split_nl cs
      else (case split_nl cs of [] \<Rightarrow> [[c]] | l # ls \<Rightarrow> (c # l) # ls))"

text \<open>\<open>arr.join('\n')\<close>; the empty array joins to the empty string.\<close>

fun join_nl :: "jsstring list \<Rightarrow> jsstring" where
  "join_nl [] = []"
| "join_nl [l] = l"
| "join_nl (l # l' # ls) = l @ NL # join_nl (l' # ls)"

text \<open>
  \<open>' '.repeat(count)\<close> raises a RangeError on a negative count. (It also does on a
  result longer than the longest string; the count here never exceeds the length of an
  input line.)
\<close>

datatype error = RangeError

definition repeat_sp :: "int \<Rightarrow> error + jsstring" where
  "repeat_sp count = (if count < 0 then Inl RangeError else Inr (replicate (nat count) SP))"

text \<open>\<open>arr.slice(start, end)\<close> and \<open>arr.slice(start)\<close> on indices that are not negative.\<close>

definition slice :: "'a list \<Rightarrow> nat \<Rightarrow> nat \<Rightarrow> 'a list" where
  "slice xs start stop = take (stop - start) (drop start xs)"

definition slice_from :: "'a list \<Rightarrow> nat \<Rightarrow> 'a list" where
  "slice_from xs start = drop start xs"

section \<open>trimLines\<close>

text \<open>
  The optional configuration object, each field optional too. Below, \<open>toLeast\<close>,
  \<open>vStart\<close> and \<open>vEnd\<close> stand for the three resolved options.
\<close>

record config =
  trimLeftToLeastIndent :: "bool option"
  trimVerticalStart :: "bool option"
  trimVerticalEnd :: "bool option"

text \<open>\<open>config?.field ?? true\<close>\<close>

definition resolve :: "(config \<Rightarrow> bool option) \<Rightarrow> config option \<Rightarrow> bool" where
  "resolve field cfg =
     (case cfg of None \<Rightarrow> True
      | Some c \<Rightarrow> (case field c of None \<Rightarrow> True | Some b \<Rightarrow> b))"

definition getStringLeftIndentLength :: "jsstring \<Rightarrow> int" where
  "getStringLeftIndentLength s = int (length s) - int (length (trimLeft s))"

text \<open>The loop that finds the least indent, from \<open>leastIndent\<close> as it stands.\<close>

fun leastIndentLoop :: "jsstring list \<Rightarrow> int option \<Rightarrow> int option" where
  "leastIndentLoop [] leastIndent = leastIndent"
| "leastIndentLoop (l # ls) leastIndent =
     (if length (trim l) = 0 then leastIndentLoop ls leastIndent
      else
        (let indent = getStringLeftIndentLength l in
         case leastIndent of
           None \<Rightarrow> leastIndentLoop ls (Some indent)
         | Some least \<Rightarrow>
             if indent < least then leastIndentLoop ls (Some indent)
             else leastIndentLoop ls leastIndent))"

definition computeLeastIndent :: "bool \<Rightarrow> jsstring list \<Rightarrow> int option" where
  "computeLeastIndent toLeast splitLines =
     (if toLeast then leastIndentLoop splitLines None else None)"

text \<open>The value the callback of \<open>map\<close> returns for one line.\<close>

definition trimLine :: "bool \<Rightarrow> int option \<Rightarrow> jsstring \<Rightarrow> error + jsstring" where
  "trimLine toLeast leastIndent l =
     (let newVal = trim l in
      if length newVal > 1 \<and> toLeast \<and> leastIndent \<noteq> None then
        (let indentOfThisItem = getStringLeftIndentLength l;
             totalIndent = indentOfThisItem - the leastIndent
         in case repeat_sp totalIndent of
              Inl e \<Rightarrow> Inl e
            | Inr pad \<Rightarrow> Inr (pad @ newVal))
      else Inr newVal)"

text \<open>The two indices the callback keeps up to date.\<close>

record occupied =
  firstOccupiedLineIdx :: "nat option"
  lastOccupiedLineIdx :: "nat option"

definition bookkeeping :: "jsstring \<Rightarrow> nat \<Rightarrow> occupied \<Rightarrow> occupied" where
  "bookkeeping newVal idx st =
     (if length newVal > 0 then
        \<lparr>firstOccupiedLineIdx =
           (case firstOccupiedLineIdx st of None \<Rightarrow> Some idx | Some i \<Rightarrow> Some i),
         lastOccupiedLineIdx = Some idx\<rparr>
      else st)"

text \<open>\<open>splitLines.map\<close>, left to right from index \<open>idx\<close>; the first error ends it.\<close>

fun mapLines ::
  "bool \<Rightarrow> int option \<Rightarrow> jsstring list \<Rightarrow> nat \<Rightarrow> occupied \<Rightarrow> error + (jsstring list \<times> occupied)"
where
  "mapLines toLeast least [] idx st = Inr ([], st)"
| "mapLines toLeast least (l # ls) idx st =
     (case trimLine toLeast least l of
        Inl e \<Rightarrow> Inl e
      | Inr newVal \<Rightarrow>
          (case mapLines toLeast least ls (Suc idx) (bookkeeping newVal idx st) of
             Inl e \<Rightarrow> Inl e
           | Inr (rest, st') \<Rightarrow> Inr (newVal # rest, st')))"

definition resultArrPreLeadTrail ::
  "bool \<Rightarrow> jsstring list \<Rightarrow> error + (jsstring list \<times> occupied)" where
  "resultArrPreLeadTrail toLeast splitLines =
     mapLines toLeast (computeLeastIndent toLeast splitLines) splitLines 0
       \<lparr>firstOccupiedLineIdx = None, lastOccupiedLineIdx = None\<rparr>"

definition resultArr :: "bool \<Rightarrow> bool \<Rightarrow> jsstring list \<Rightarrow> nat \<Rightarrow> nat \<Rightarrow> jsstring list" where
  "resultArr vStart vEnd pre firstIdx lastIdx =
     (if vStart \<and> vEnd then slice pre firstIdx (lastIdx + 1)
      else if vStart then slice_from pre firstIdx
      else if vEnd then slice pre 0 (lastIdx + 1)
      else pre)"

definition trimLines :: "jsstring \<Rightarrow> config option \<Rightarrow> error + jsstring" where
  "trimLines str cfg =
     (let toLeast = resolve trimLeftToLeastIndent cfg;
          vStart = resolve trimVerticalStart cfg;
          vEnd = resolve trimVerticalEnd cfg;
          splitLines = split_nl str
      in case resultArrPreLeadTrail toLeast splitLines of
           Inl e \<Rightarrow> Inl e
         | Inr (pre, st) \<Rightarrow>
             (case (firstOccupiedLineIdx st, lastOccupiedLineIdx st) of
                (Some firstIdx, Some lastIdx) \<Rightarrow>
                  Inr (join_nl (resultArr vStart vEnd pre firstIdx lastIdx))
              | _ \<Rightarrow> Inr []))"

section \<open>Notions used to state the properties\<close>

text \<open>A blank line holds nothing but whitespace; an occupied line is one that is not blank.\<close>

definition isBlank :: "jsstring \<Rightarrow> bool" where
  "isBlank l = list_all isWhite l"

text \<open>The length of the leading run of whitespace of a line.\<close>

definition leadingWs :: "jsstring \<Rightarrow> nat" where
  "leadingWs l = length (takeWhile isWhite l)"

text \<open>The number of lines of a string: its line feeds plus one.\<close>

definition lineCount :: "jsstring \<Rightarrow> nat" where
  "lineCount s = Suc (length (filter (\<lambda>c. c = NL) s))"

text \<open>
  What the callback yields for a line when the repetition is defined: the trimmed line,
  behind \<open>indent - least\<close> spaces where the line is re-indented.
\<close>

definition lineOut :: "bool \<Rightarrow> int option \<Rightarrow> jsstring \<Rightarrow> jsstring" where
  "lineOut toLeast leastIndent l =
     (case leastIndent of
        Some least \<Rightarrow>
          if length (trim l) > 1 \<and> toLeast
          then replicate (nat (getStringLeftIndentLength l - least)) SP @ trim l
          else trim l
      | None \<Rightarrow> trim l)"

text \<open>
  The lines after the per-line pass, and the lines that vertical trimming keeps of them,
  as plain list functions; \<open>trimLines_char\<close> below shows that the code computes them.
\<close>

definition trimmedLines :: "bool \<Rightarrow> jsstring list \<Rightarrow> jsstring list" where
  "trimmedLines toLeast ls = map (lineOut toLeast (computeLeastIndent toLeast ls)) ls"

definition keptLines :: "bool \<Rightarrow> bool \<Rightarrow> jsstring list \<Rightarrow> jsstring list" where
  "keptLines vStart vEnd pre =
     (if vStart then dropWhile (\<lambda>l. l = []) else id)
       ((if vEnd then strip_while (\<lambda>l. l = []) else id) pre)"

section \<open>Trimming a string\<close>

lemma isWhite_SP: "isWhite SP"
  by (simp add: isWhite_def SP_def)

lemma isWhite_NL: "isWhite NL"
  by (simp add: isWhite_def NL_def)

lemma trimLeft_Nil_iff: "trimLeft l = [] \<longleftrightarrow> isBlank l"
  by (simp add: trimLeft_def isBlank_def dropWhile_eq_Nil_conv list_all_iff)

lemma trimRight_Nil_iff: "trimRight l = [] \<longleftrightarrow> isBlank l"
  by (simp add: trimRight_def isBlank_def dropWhile_eq_Nil_conv list_all_iff)

lemma isBlank_trimLeft: "isBlank (trimLeft l) \<longleftrightarrow> isBlank l"
  unfolding trimLeft_Nil_iff [symmetric] by (simp add: trimLeft_def)

lemma trim_Nil_iff: "trim l = [] \<longleftrightarrow> isBlank l"
  by (simp add: trim_def trimRight_Nil_iff isBlank_trimLeft)

lemma trimLeft_hd: "trimLeft l \<noteq> [] \<Longrightarrow> \<not> isWhite (hd (trimLeft l))"
  unfolding trimLeft_def by (rule hd_dropWhile)

lemma trimRight_last: "trimRight l \<noteq> [] \<Longrightarrow> \<not> isWhite (last (trimRight l))"
  unfolding trimRight_def by (simp add: last_rev hd_dropWhile)

lemma trimLeft_fix: "l = [] \<or> \<not> isWhite (hd l) \<Longrightarrow> trimLeft l = l"
  by (cases l) (auto simp: trimLeft_def)

lemma trimRight_fix: "l = [] \<or> \<not> isWhite (last l) \<Longrightarrow> trimRight l = l"
  unfolding trimRight_def
  by (cases "rev l") (auto simp: last_rev dest!: arg_cong [where f = rev and x = "rev l"])

lemma hd_trimRight: "\<not> isBlank l \<Longrightarrow> \<not> isWhite (hd l) \<Longrightarrow> hd (trimRight l) = hd l"
proof (cases l)
  case Nil then show "\<not> isBlank l \<Longrightarrow> ?thesis" by (simp add: isBlank_def)
next
  case (Cons c cs)
  assume w: "\<not> isWhite (hd l)"
  have "trimRight ([c] @ cs) = (if isBlank cs then trimRight [c] else [c] @ trimRight cs)"
    using w Cons by (auto simp: trimRight_def isBlank_def dropWhile_append list_all_iff)
  then show ?thesis using w Cons by (auto simp: trimRight_def)
qed

lemma trim_hd: "trim l \<noteq> [] \<Longrightarrow> \<not> isWhite (hd (trim l))"
proof -
  assume n: "trim l \<noteq> []"
  then have nb: "\<not> isBlank (trimLeft l)" by (simp add: trim_Nil_iff isBlank_trimLeft)
  then have "trimLeft l \<noteq> []" by (auto simp: isBlank_def)
  then have "\<not> isWhite (hd (trimLeft l))" by (rule trimLeft_hd)
  then show ?thesis using nb by (simp add: trim_def hd_trimRight)
qed

lemma trim_last: "trim l \<noteq> [] \<Longrightarrow> \<not> isWhite (last (trim l))"
  unfolding trim_def by (rule trimRight_last)

lemma trim_fix: "l = [] \<or> (\<not> isWhite (hd l) \<and> \<not> isWhite (last l)) \<Longrightarrow> trim l = l"
  by (auto simp: trim_def trimLeft_fix trimRight_fix)

lemma trim_idem: "trim (trim l) = trim l"
  by (rule trim_fix) (use trim_hd trim_last in blast)

lemma trimLeft_pad: "t = [] \<or> \<not> isWhite (hd t) \<Longrightarrow> trimLeft (replicate n SP @ t) = t"
  by (cases t) (auto simp: trimLeft_def dropWhile_append isWhite_SP)

lemma trim_pad: "trim (replicate n SP @ trim l) = trim l"
proof -
  have "trimLeft (replicate n SP @ trim l) = trim l"
    by (rule trimLeft_pad) (use trim_hd in blast)
  moreover have "trimRight (trim l) = trim l"
    by (rule trimRight_fix) (use trim_last in blast)
  ultimately show ?thesis by (simp add: trim_def)
qed

lemma indent_leadingWs: "getStringLeftIndentLength l = int (leadingWs l)"
proof -
  have "length l = length (takeWhile isWhite l) + length (dropWhile isWhite l)"
    by (metis length_append takeWhile_dropWhile_id)
  then show ?thesis by (simp add: getStringLeftIndentLength_def leadingWs_def trimLeft_def)
qed

lemma leadingWs_pad: "t = [] \<or> \<not> isWhite (hd t) \<Longrightarrow> leadingWs (replicate n SP @ t) = n"
  by (cases t) (auto simp: leadingWs_def takeWhile_append isWhite_SP)

lemma set_trim: "set (trim l) \<subseteq> set l"
proof -
  have "set (trimRight (trimLeft l)) \<subseteq> set (trimLeft l)"
    unfolding trimRight_def using set_dropWhileD by fastforce
  moreover have "set (trimLeft l) \<subseteq> set l"
    unfolding trimLeft_def using set_dropWhileD by fastforce
  ultimately show ?thesis by (simp add: trim_def)
qed

section \<open>Splitting and joining\<close>

lemma split_nl_no_NL: "l \<in> set (split_nl s) \<Longrightarrow> NL \<notin> set l"
  by (induction s arbitrary: l) (auto split: list.splits if_splits)

lemma length_split_nl: "length (split_nl s) = lineCount s"
  by (induction s) (auto simp: lineCount_def split: list.splits)

lemma split_nl_append_NL:
  "NL \<notin> set l \<Longrightarrow> split_nl (l @ NL # s) = l # split_nl s"
  by (induction l) (auto split: list.splits)

lemma split_nl_single: "NL \<notin> set l \<Longrightarrow> split_nl l = [l]"
  by (induction l) (auto split: list.splits)

lemma split_join_nl:
  "ls \<noteq> [] \<Longrightarrow> (\<And>l. l \<in> set ls \<Longrightarrow> NL \<notin> set l) \<Longrightarrow> split_nl (join_nl ls) = ls"
proof (induction ls rule: join_nl.induct)
  case 1 then show ?case by simp
next
  case (2 l) then show ?case by (simp add: split_nl_single)
next
  case (3 l l' ls)
  then show ?case by (simp add: split_nl_append_NL)
qed

section \<open>The two passes over the lines\<close>

lemma leastIndentLoop_None:
  "leastIndentLoop ls acc = None \<longleftrightarrow> acc = None \<and> (\<forall>l\<in>set ls. isBlank l)"
  by (induction ls arbitrary: acc) (auto simp: trim_Nil_iff Let_def split: option.splits)

lemma leastIndentLoop_Some:
  "leastIndentLoop ls acc = Some m \<Longrightarrow>
     (\<forall>a. acc = Some a \<longrightarrow> m \<le> a) \<and>
     (\<forall>l\<in>set ls. \<not> isBlank l \<longrightarrow> m \<le> getStringLeftIndentLength l) \<and>
     (acc = Some m \<or> (\<exists>l\<in>set ls. \<not> isBlank l \<and> getStringLeftIndentLength l = m))"
proof (induction ls arbitrary: acc)
  case Nil
  then show ?case by simp
next
  case (Cons l ls)
  show ?case
  proof (cases "isBlank l")
    case True
    with Cons.prems have "leastIndentLoop ls acc = Some m" by (simp add: trim_Nil_iff)
    from Cons.IH [OF this] True show ?thesis by auto
  next
    case False
    let ?i = "getStringLeftIndentLength l"
    show ?thesis
    proof (cases acc)
      case None
      with Cons.prems False have "leastIndentLoop ls (Some ?i) = Some m"
        by (simp add: trim_Nil_iff)
      from Cons.IH [OF this] None False show ?thesis by auto
    next
      case (Some a)
      show ?thesis
      proof (cases "?i < a")
        case True
        with Cons.prems False Some have "leastIndentLoop ls (Some ?i) = Some m"
          by (simp add: trim_Nil_iff)
        from Cons.IH [OF this] Some False True show ?thesis by auto
      next
        case ge: False
        with Cons.prems False Some have "leastIndentLoop ls (Some a) = Some m"
          by (simp add: trim_Nil_iff)
        from Cons.IH [OF this] Some False ge show ?thesis by auto
      qed
    qed
  qed
qed

lemma computeLeastIndent_lower:
  "computeLeastIndent toLeast ls = Some m \<Longrightarrow> l \<in> set ls \<Longrightarrow> \<not> isBlank l \<Longrightarrow>
     m \<le> getStringLeftIndentLength l"
  using leastIndentLoop_Some [of ls None m]
  by (auto simp: computeLeastIndent_def split: if_splits)

lemma computeLeastIndent_attained:
  "computeLeastIndent toLeast ls = Some m \<Longrightarrow>
     \<exists>l\<in>set ls. \<not> isBlank l \<and> getStringLeftIndentLength l = m"
  using leastIndentLoop_Some [of ls None m]
  by (auto simp: computeLeastIndent_def split: if_splits)

lemma computeLeastIndent_None:
  "computeLeastIndent toLeast ls = None \<longleftrightarrow> \<not> toLeast \<or> (\<forall>l\<in>set ls. isBlank l)"
  by (simp add: computeLeastIndent_def leastIndentLoop_None)

lemma lineOut_Nil_iff: "lineOut toLeast least l = [] \<longleftrightarrow> isBlank l"
  by (auto simp: lineOut_def trim_Nil_iff [symmetric] split: option.splits)

lemma trimLine_lineOut:
  "(\<And>m. least = Some m \<Longrightarrow> \<not> isBlank l \<Longrightarrow> m \<le> getStringLeftIndentLength l) \<Longrightarrow>
     trimLine toLeast least l = Inr (lineOut toLeast least l)"
proof (cases least)
  case None
  then show ?thesis by (simp add: trimLine_def lineOut_def)
next
  case (Some m)
  assume h: "\<And>m. least = Some m \<Longrightarrow> \<not> isBlank l \<Longrightarrow> m \<le> getStringLeftIndentLength l"
  show ?thesis
  proof (cases "length (trim l) > 1 \<and> toLeast")
    case True
    then have "trim l \<noteq> []" by auto
    then have "\<not> isBlank l" by (simp add: trim_Nil_iff)
    with h Some have "m \<le> getStringLeftIndentLength l" by simp
    with True Some show ?thesis
      by (simp add: trimLine_def lineOut_def repeat_sp_def Let_def)
  next
    case False
    with Some show ?thesis by (auto simp: trimLine_def lineOut_def Let_def)
  qed
qed

lemma option_case_id: "(case x of None \<Rightarrow> None | Some i \<Rightarrow> Some i) = x"
  by (cases x) simp_all

lemma mapLines_char:
  assumes "\<And>l. l \<in> set ls \<Longrightarrow> trimLine toLeast least l = Inr (lineOut toLeast least l)"
  shows "mapLines toLeast least ls idx st =
    Inr (map (lineOut toLeast least) ls,
      \<lparr>firstOccupiedLineIdx =
         (case firstOccupiedLineIdx st of
            Some i \<Rightarrow> Some i
          | None \<Rightarrow> if \<forall>l\<in>set ls. isBlank l then None
                    else Some (idx + length (takeWhile isBlank ls))),
       lastOccupiedLineIdx =
         (if \<forall>l\<in>set ls. isBlank l then lastOccupiedLineIdx st
          else Some (idx + length (strip_while isBlank ls) - 1))\<rparr>)"
  using assms
proof (induction ls arbitrary: idx st)
  case Nil
  then show ?case by (simp add: option_case_id)
next
  case (Cons l ls)
  have t: "trimLine toLeast least l = Inr (lineOut toLeast least l)"
    by (rule Cons.prems) simp
  have r: "\<And>k. k \<in> set ls \<Longrightarrow> trimLine toLeast least k = Inr (lineOut toLeast least k)"
    by (rule Cons.prems) simp
  note ih = Cons.IH [OF r, of "Suc idx" "bookkeeping (lineOut toLeast least l) idx st"]
  show ?case
  proof (cases "isBlank l")
    case True
    then have b: "bookkeeping (lineOut toLeast least l) idx st = st"
      by (simp add: bookkeeping_def lineOut_Nil_iff)
    have "strip_while isBlank (l # ls) = (if \<forall>k\<in>set ls. isBlank k then [] else l # strip_while isBlank ls)"
      using True strip_while_eq_Cons_rec [of isBlank l ls] by auto
    moreover have "\<not> (\<forall>k\<in>set ls. isBlank k) \<Longrightarrow> strip_while isBlank ls \<noteq> []"
      by simp
    ultimately show ?thesis using True t ih b
      by (auto simp: option_case_id split: option.splits)
  next
    case False
    then have ne: "lineOut toLeast least l \<noteq> []" by (simp add: lineOut_Nil_iff)
    have s: "strip_while isBlank (l # ls) = l # strip_while isBlank ls"
      using False by simp
    have "\<not> (\<forall>k\<in>set ls. isBlank k) \<Longrightarrow> strip_while isBlank ls \<noteq> []"
      by simp
    then show ?thesis using False t ih ne s
      by (auto simp: bookkeeping_def option_case_id split: option.splits)
  qed
qed

section \<open>What trimLines computes\<close>

lemma strip_while_eq_take: "strip_while P xs = take (length (strip_while P xs)) xs"
proof -
  obtain ys zs where "strip_while P xs = ys" and "xs = ys @ zs"
    by (rule split_strip_while_append)
  then show ?thesis by simp
qed

lemma takeWhile_strip_while:
  assumes "\<not> (\<forall>x\<in>set xs. P x)"
  shows "takeWhile P (strip_while P xs) = takeWhile P xs"
proof -
  obtain ys zs where y: "strip_while P xs = ys" and z: "\<forall>x\<in>set zs. P x" and x: "xs = ys @ zs"
    by (rule split_strip_while_append)
  from assms x z obtain e where "e \<in> set ys" "\<not> P e" by auto
  then have "takeWhile P (ys @ zs) = takeWhile P ys" by (rule takeWhile_append1)
  with x y show ?thesis by simp
qed

lemma resultArr_char:
  assumes "\<not> (\<forall>l\<in>set pre. l = [])"
  shows "resultArr vStart vEnd pre (length (takeWhile (\<lambda>l. l = []) pre))
           (length (strip_while (\<lambda>l. l = []) pre) - 1) = keptLines vStart vEnd pre"
proof -
  let ?P = "\<lambda>l::jsstring. l = []"
  let ?a = "length (takeWhile ?P pre)" and ?n = "length (strip_while ?P pre)"
  from assms have "strip_while ?P pre \<noteq> []" by simp
  then have n: "Suc (?n - Suc 0) = ?n" by simp
  have e: "take ?n pre = strip_while ?P pre"
    by (rule strip_while_eq_take [symmetric])
  have "take (?n - ?a) (drop ?a pre) = drop ?a (take ?n pre)"
    by (rule drop_take [symmetric])
  also have "\<dots> = drop (length (takeWhile ?P (strip_while ?P pre))) (strip_while ?P pre)"
    using assms by (simp add: e takeWhile_strip_while)
  also have "\<dots> = dropWhile ?P (strip_while ?P pre)"
    by (rule dropWhile_eq_drop [symmetric])
  finally have both: "take (?n - ?a) (drop ?a pre) = dropWhile ?P (strip_while ?P pre)" .
  have start: "drop ?a pre = dropWhile ?P pre"
    by (rule dropWhile_eq_drop [symmetric])
  show ?thesis
    using both start e
    by (simp add: resultArr_def keptLines_def slice_def slice_from_def n)
qed

lemma trimLines_char:
  "trimLines s cfg =
     Inr (let pre = trimmedLines (resolve trimLeftToLeastIndent cfg) (split_nl s) in
          if \<forall>l\<in>set pre. l = [] then []
          else join_nl (keptLines (resolve trimVerticalStart cfg) (resolve trimVerticalEnd cfg) pre))"
proof -
  let ?tl = "resolve trimLeftToLeastIndent cfg"
  let ?ls = "split_nl s"
  let ?least = "computeLeastIndent ?tl ?ls"
  let ?pre = "trimmedLines ?tl ?ls"
  let ?P = "\<lambda>l::jsstring. l = []"
  have line: "\<And>l. l \<in> set ?ls \<Longrightarrow> trimLine ?tl ?least l = Inr (lineOut ?tl ?least l)"
    by (rule trimLine_lineOut) (rule computeLeastIndent_lower)
  have comp: "?P \<circ> lineOut ?tl ?least = isBlank"
    by (rule ext) (simp add: lineOut_Nil_iff)
  have blank: "(\<forall>l\<in>set ?ls. isBlank l) \<longleftrightarrow> (\<forall>l\<in>set ?pre. l = [])"
    by (simp add: trimmedLines_def lineOut_Nil_iff)
  have a: "length (takeWhile isBlank ?ls) = length (takeWhile ?P ?pre)"
    by (simp add: trimmedLines_def takeWhile_map comp)
  have n: "length (strip_while isBlank ?ls) = length (strip_while ?P ?pre)"
    by (simp add: trimmedLines_def strip_while_map comp)
  have m0: "mapLines ?tl ?least ?ls 0
      \<lparr>firstOccupiedLineIdx = None, lastOccupiedLineIdx = None\<rparr> =
    Inr (map (lineOut ?tl ?least) ?ls,
      \<lparr>firstOccupiedLineIdx =
         (if \<forall>l\<in>set ?ls. isBlank l then None else Some (length (takeWhile isBlank ?ls))),
       lastOccupiedLineIdx =
         (if \<forall>l\<in>set ?ls. isBlank l then None
          else Some (length (strip_while isBlank ?ls) - 1))\<rparr>)"
    using mapLines_char [OF line, of ?ls 0
        "\<lparr>firstOccupiedLineIdx = None, lastOccupiedLineIdx = None\<rparr>"]
    by simp
  have m: "resultArrPreLeadTrail ?tl ?ls =
    Inr (?pre,
      \<lparr>firstOccupiedLineIdx =
         (if \<forall>l\<in>set ?pre. l = [] then None else Some (length (takeWhile ?P ?pre))),
       lastOccupiedLineIdx =
         (if \<forall>l\<in>set ?pre. l = [] then None else Some (length (strip_while ?P ?pre) - 1))\<rparr>)"
    unfolding resultArrPreLeadTrail_def m0 blank a n
    by (simp add: trimmedLines_def)
  show ?thesis
  proof (cases "\<forall>l\<in>set ?pre. l = []")
    case True
    then show ?thesis by (simp add: trimLines_def m Let_def)
  next
    case False
    then have "resultArr (resolve trimVerticalStart cfg) (resolve trimVerticalEnd cfg) ?pre
        (length (takeWhile ?P ?pre)) (length (strip_while ?P ?pre) - 1) =
      keptLines (resolve trimVerticalStart cfg) (resolve trimVerticalEnd cfg) ?pre"
      by (rule resultArr_char)
    with False show ?thesis by (auto simp: trimLines_def m Let_def)
  qed
qed

lemma resultArrPreLeadTrail_lines:
  "\<exists>st. resultArrPreLeadTrail toLeast ls = Inr (trimmedLines toLeast ls, st)"
proof -
  let ?least = "computeLeastIndent toLeast ls"
  have line: "\<And>l. l \<in> set ls \<Longrightarrow> trimLine toLeast ?least l = Inr (lineOut toLeast ?least l)"
    by (rule trimLine_lineOut) (rule computeLeastIndent_lower)
  show ?thesis
    using mapLines_char [OF line, of ls 0
        "\<lparr>firstOccupiedLineIdx = None, lastOccupiedLineIdx = None\<rparr>"]
    by (simp add: resultArrPreLeadTrail_def trimmedLines_def)
qed

lemma split_nl_all_blank:
  "(\<forall>l\<in>set (split_nl s). isBlank l) \<longleftrightarrow> list_all (\<lambda>c. isWhite c \<or> c = NL) s"
proof (induction s)
  case Nil
  then show ?case by (simp add: isBlank_def)
next
  case (Cons c s)
  then show ?case
    by (cases "split_nl s") (auto simp: isBlank_def isWhite_NL)
qed

lemma trimmedLines_all_empty:
  "(\<forall>l\<in>set (trimmedLines toLeast (split_nl s)). l = []) \<longleftrightarrow>
     list_all (\<lambda>c. isWhite c \<or> c = NL) s"
  by (simp add: trimmedLines_def lineOut_Nil_iff split_nl_all_blank)

section \<open>The lines of the result\<close>

lemma js_simps: "js [] = []" "js (c # cs) = of_nat (of_char c) # js cs"
  by (simp_all add: js_def)

lemma SP_not_NL: "SP \<noteq> NL"
  by (simp add: SP_def NL_def)

lemma set_lineOut: "set (lineOut toLeast least l) \<subseteq> insert SP (set l)"
  using set_trim [of l] by (auto simp: lineOut_def split: option.splits)

lemma trimmedLines_no_NL:
  assumes "r \<in> set (trimmedLines toLeast (split_nl s))"
  shows "NL \<notin> set r"
proof -
  from assms obtain l where l: "l \<in> set (split_nl s)"
    and r: "r = lineOut toLeast (computeLeastIndent toLeast (split_nl s)) l"
    by (auto simp: trimmedLines_def)
  from l have "NL \<notin> set l" by (rule split_nl_no_NL)
  with set_lineOut [of toLeast "computeLeastIndent toLeast (split_nl s)" l] r SP_not_NL
  show ?thesis by auto
qed

lemma set_strip_while: "set (strip_while P xs) \<subseteq> set xs"
  by (metis split_strip_while_append set_append Un_upper1)

lemma set_keptLines: "set (keptLines vStart vEnd pre) \<subseteq> set pre"
proof -
  let ?P = "\<lambda>l::jsstring. l = []"
  have a: "\<And>xs. set (dropWhile ?P xs) \<subseteq> set xs"
    by (auto dest: set_dropWhileD)
  have b: "\<And>xs. set (strip_while ?P xs) \<subseteq> set xs"
    by (rule set_strip_while)
  from a [of "strip_while ?P pre"] b [of pre]
  have "set (dropWhile ?P (strip_while ?P pre)) \<subseteq> set pre" by blast
  with a [of pre] b [of pre] show ?thesis by (auto simp: keptLines_def)
qed

lemma in_dropWhile: "x \<in> set xs \<Longrightarrow> \<not> P x \<Longrightarrow> x \<in> set (dropWhile P xs)"
  by (induction xs) auto

lemma in_strip_while: "x \<in> set xs \<Longrightarrow> \<not> P x \<Longrightarrow> x \<in> set (strip_while P xs)"
  using in_dropWhile [of x "rev xs" P] by (simp add: strip_while_def)

lemma keptLines_keeps:
  "r \<in> set pre \<Longrightarrow> r \<noteq> [] \<Longrightarrow> r \<in> set (keptLines vStart vEnd pre)"
  by (simp add: keptLines_def in_dropWhile in_strip_while)

lemma keptLines_not_Nil:
  "\<not> (\<forall>l\<in>set pre. l = []) \<Longrightarrow> keptLines vStart vEnd pre \<noteq> []"
  using keptLines_keeps [of _ pre vStart vEnd] by fastforce

lemma trimLines_lines:
  "\<exists>out. trimLines s cfg = Inr out \<and>
     split_nl out =
       (if list_all (\<lambda>c. isWhite c \<or> c = NL) s then [[]]
        else keptLines (resolve trimVerticalStart cfg) (resolve trimVerticalEnd cfg)
               (trimmedLines (resolve trimLeftToLeastIndent cfg) (split_nl s)))"
proof (cases "list_all (\<lambda>c. isWhite c \<or> c = NL) s")
  case True
  then show ?thesis by (simp add: trimLines_char trimmedLines_all_empty)
next
  case False
  let ?pre = "trimmedLines (resolve trimLeftToLeastIndent cfg) (split_nl s)"
  let ?R = "keptLines (resolve trimVerticalStart cfg) (resolve trimVerticalEnd cfg) ?pre"
  from False have ne: "\<not> (\<forall>l\<in>set ?pre. l = [])"
    by (simp add: trimmedLines_all_empty)
  then have "?R \<noteq> []" by (rule keptLines_not_Nil)
  moreover have "\<And>r. r \<in> set ?R \<Longrightarrow> NL \<notin> set r"
    using set_keptLines trimmedLines_no_NL by blast
  ultimately have "split_nl (join_nl ?R) = ?R" by (rule split_join_nl)
  moreover have "trimLines s cfg = Inr (join_nl ?R)"
    using ne by (auto simp: trimLines_char Let_def)
  ultimately show ?thesis using False by simp
qed

lemma lineOut_no_trailing:
  "lineOut toLeast least l = [] \<or> \<not> isWhite (last (lineOut toLeast least l))"
proof (cases "trim l = []")
  case True
  then show ?thesis by (simp add: lineOut_def split: option.splits)
next
  case False
  then have "\<not> isWhite (last (trim l))" by (rule trim_last)
  with False show ?thesis by (simp add: lineOut_def split: option.splits)
qed

lemma keptLines_nth:
  assumes ne: "\<not> (\<forall>l\<in>set pre. l = [])"
    and i: "i < length (keptLines vStart vEnd pre)"
  shows "i + (if vStart then length (takeWhile (\<lambda>l. l = []) pre) else 0) < length pre \<and>
    keptLines vStart vEnd pre ! i =
      pre ! (i + (if vStart then length (takeWhile (\<lambda>l. l = []) pre) else 0))"
proof -
  let ?P = "\<lambda>l::jsstring. l = []"
  let ?a = "length (takeWhile ?P pre)" and ?n = "length (strip_while ?P pre)"
  have t: "strip_while ?P pre = take ?n pre" by (rule strip_while_eq_take)
  have d: "dropWhile ?P pre = drop ?a pre" by (rule dropWhile_eq_drop)
  have "dropWhile ?P (strip_while ?P pre) =
      drop (length (takeWhile ?P (strip_while ?P pre))) (strip_while ?P pre)"
    by (rule dropWhile_eq_drop)
  also have "\<dots> = drop ?a (strip_while ?P pre)"
    using ne by (simp add: takeWhile_strip_while)
  finally have b: "dropWhile ?P (strip_while ?P pre) = drop ?a (take ?n pre)"
    using t by simp
  show ?thesis
  proof (cases vStart)
    case s: True
    show ?thesis
    proof (cases vEnd)
      case True
      with s i b have "i < length (drop ?a (take ?n pre))" by (simp add: keptLines_def)
      then have "?a + i < ?n \<and> ?a + i < length pre"
        by (auto simp: less_diff_conv add.commute)
      then show ?thesis using s True b by (simp add: keptLines_def add.commute)
    next
      case False
      with s i d have "i < length (drop ?a pre)" by (simp add: keptLines_def)
      then have "?a + i < length pre" by simp
      then show ?thesis using s False d by (simp add: keptLines_def add.commute)
    qed
  next
    case s: False
    show ?thesis
    proof (cases vEnd)
      case True
      with s i t have "i < length (take ?n pre)" by (simp add: keptLines_def)
      then have il: "i < ?n \<and> i < length pre" by simp
      then have "take ?n pre ! i = pre ! i" by simp
      then have "strip_while ?P pre ! i = pre ! i" unfolding t [symmetric] .
      then show ?thesis using s True il by (simp add: keptLines_def)
    next
      case False
      with s i show ?thesis by (simp add: keptLines_def)
    qed
  qed
qed

lemma trimmedLines_off: "trimmedLines False ls = map trim ls"
  by (simp add: trimmedLines_def computeLeastIndent_def lineOut_def)

lemma takeWhile_empty_trimmedLines:
  "length (takeWhile (\<lambda>l. l = []) (trimmedLines toLeast ls)) = length (takeWhile isBlank ls)"
proof -
  have "(\<lambda>l. l = []) \<circ> lineOut toLeast (computeLeastIndent toLeast ls) = isBlank"
    by (rule ext) (simp add: lineOut_Nil_iff)
  then show ?thesis by (simp add: trimmedLines_def takeWhile_map)
qed

section \<open>Lines that the per-line pass leaves as they are\<close>

lemma isBlank_trim: "isBlank (trim l) \<longleftrightarrow> isBlank l"
  using trim_Nil_iff [of "trim l"] trim_Nil_iff [of l] by (simp add: trim_idem)

lemma leadingWs_trim: "leadingWs (trim l) = 0"
  using leadingWs_pad [of "trim l" 0] trim_hd [of l] by auto

lemma zero_indent_line:
  assumes "\<not> (\<forall>l\<in>set ls. isBlank l)"
  shows "\<exists>r\<in>set (trimmedLines True ls). r \<noteq> [] \<and> \<not> isBlank r \<and> leadingWs r = 0"
proof -
  from assms obtain m where m: "computeLeastIndent True ls = Some m"
    using computeLeastIndent_None [of True ls] by auto
  then obtain l where l: "l \<in> set ls" "\<not> isBlank l" "getStringLeftIndentLength l = m"
    using computeLeastIndent_attained by blast
  then have "lineOut True (Some m) l = trim l" by (simp add: lineOut_def)
  with l m have "trim l \<in> set (trimmedLines True ls)"
    by (force simp: trimmedLines_def)
  moreover from l have "trim l \<noteq> []" by (simp add: trim_Nil_iff)
  moreover from l have "\<not> isBlank (trim l)" by (simp add: isBlank_trim)
  ultimately show ?thesis using leadingWs_trim by blast
qed

lemma lineOut_fixed:
  "lineOut True (Some 0) (lineOut True (Some m) l) = lineOut True (Some m) l"
proof (cases "length (trim l) > 1")
  case True
  let ?k = "nat (getStringLeftIndentLength l - m)"
  let ?r = "replicate ?k SP @ trim l"
  from True have r: "lineOut True (Some m) l = ?r" by (simp add: lineOut_def)
  have t: "trim ?r = trim l" by (rule trim_pad)
  have "leadingWs ?r = ?k" by (rule leadingWs_pad) (use trim_hd in blast)
  then have "getStringLeftIndentLength ?r = int ?k" by (simp add: indent_leadingWs)
  with True t have "lineOut True (Some 0) ?r = ?r" by (simp add: lineOut_def)
  with r show ?thesis by simp
next
  case False
  then show ?thesis by (simp add: lineOut_def trim_idem)
qed

lemma keptLines_idem: "keptLines True True (keptLines True True pre) = keptLines True True pre"
proof -
  let ?P = "\<lambda>l::jsstring. l = []"
  have "strip_while ?P (dropWhile ?P (strip_while ?P pre)) = dropWhile ?P (strip_while ?P pre)"
    by (simp add: strip_while_dropWhile_commute)
  then show ?thesis by (simp add: keptLines_def)
qed

lemma trimmedLines_fixed:
  assumes nb: "\<not> (\<forall>l\<in>set ls. isBlank l)"
  shows "trimmedLines True (keptLines vStart vEnd (trimmedLines True ls))
    = keptLines vStart vEnd (trimmedLines True ls)"
proof -
  let ?pre = "trimmedLines True ls"
  let ?R = "keptLines vStart vEnd ?pre"
  from nb obtain m where m: "computeLeastIndent True ls = Some m"
    using computeLeastIndent_None [of True ls] by auto
  obtain r where r: "r \<in> set ?pre" "r \<noteq> []" "\<not> isBlank r" "leadingWs r = 0"
    using zero_indent_line [OF nb] by blast
  then have rR: "r \<in> set ?R" by (simp add: keptLines_keeps)
  with r have "\<not> (\<forall>l\<in>set ?R. isBlank l)" by blast
  then obtain m' where m': "computeLeastIndent True ?R = Some m'"
    using computeLeastIndent_None [of True ?R] by auto
  from m' rR r have "m' \<le> getStringLeftIndentLength r"
    by (blast intro: computeLeastIndent_lower)
  with r have "m' \<le> 0" by (simp add: indent_leadingWs)
  moreover from m' obtain l' where "getStringLeftIndentLength l' = m'"
    using computeLeastIndent_attained by blast
  then have "0 \<le> m'" by (simp add: indent_leadingWs)
  ultimately have z: "computeLeastIndent True ?R = Some 0" using m' by simp
  have "\<And>x. x \<in> set ?R \<Longrightarrow> lineOut True (Some 0) x = x"
  proof -
    fix x assume "x \<in> set ?R"
    then have "x \<in> set ?pre" using set_keptLines by blast
    then obtain l where "x = lineOut True (Some m) l"
      by (auto simp: trimmedLines_def m)
    then show "lineOut True (Some 0) x = x" by (simp add: lineOut_fixed)
  qed
  then have "map (lineOut True (Some 0)) ?R = ?R" by (simp add: map_idI)
  then show ?thesis by (simp add: trimmedLines_def [of True ?R] z)
qed

section \<open>Properties of trimLines\<close>

text \<open>
  C9. Under the default configuration the input with two blank lines, \<open>  foo\<close>, a blank
  line, \<open>  bar\<close> and three line feeds gives \<open>foo\<close>, an empty line and \<open>bar\<close>: the blank
  lines at both ends go, the one inside stays, and the least indent, 2, is taken off both
  occupied lines.
\<close>

theorem trimLines_scenario_two:
  "trimLines (js ''\<newline>\<newline>  foo\<newline>\<newline>  bar\<newline>\<newline>\<newline>'') None = Inr (js ''foo\<newline>\<newline>bar'')
   \<and> computeLeastIndent True (split_nl (js ''\<newline>\<newline>  foo\<newline>\<newline>  bar\<newline>\<newline>\<newline>'')) = Some 2"
  by code_simp

text \<open>
  C6. A line whose trimmed content has at most one character comes out of the per-line
  pass as that trimmed content, with no spaces put back, whatever the option and the least
  indent are; so the single line \<open>    x\<close>, of least indent 4, gives \<open>x\<close> with
  trimLeftToLeastIndent set.
\<close>

theorem single_character_line_not_reindented:
  "(\<forall>toLeast least l. length (trim l) \<le> 1 \<longrightarrow> trimLine toLeast least l = Inr (trim l))
   \<and> (\<forall>s toLeast i. i < length (split_nl s) \<and> length (trim (split_nl s ! i)) \<le> 1 \<longrightarrow>
        (\<exists>pre st. resultArrPreLeadTrail toLeast (split_nl s) = Inr (pre, st)
           \<and> pre ! i = trim (split_nl s ! i)))
   \<and> computeLeastIndent True (split_nl (js ''    x'')) = Some 4
   \<and> trimLines (js ''    x'')
        (Some \<lparr>trimLeftToLeastIndent = Some True, trimVerticalStart = None,
               trimVerticalEnd = None\<rparr>) = Inr (js ''x'')"
proof (intro conjI allI impI)
  fix toLeast least and l :: jsstring
  assume "length (trim l) \<le> 1"
  then show "trimLine toLeast least l = Inr (trim l)"
    by (simp add: trimLine_def Let_def split: option.splits)
next
  fix s toLeast i
  assume h: "i < length (split_nl s) \<and> length (trim (split_nl s ! i)) \<le> 1"
  let ?ls = "split_nl s"
  obtain st where r: "resultArrPreLeadTrail toLeast ?ls = Inr (trimmedLines toLeast ?ls, st)"
    using resultArrPreLeadTrail_lines by blast
  from h have "trimmedLines toLeast ?ls ! i = trim (?ls ! i)"
    by (simp add: trimmedLines_def lineOut_def split: option.splits)
  with r show "\<exists>pre st. resultArrPreLeadTrail toLeast ?ls = Inr (pre, st) \<and> pre ! i = trim (?ls ! i)"
    by blast
next
  show "computeLeastIndent True (split_nl (js ''    x'')) = Some 4"
    by code_simp
next
  show "trimLines (js ''    x'')
        (Some \<lparr>trimLeftToLeastIndent = Some True, trimVerticalStart = None,
               trimVerticalEnd = None\<rparr>) = Inr (js ''x'')"
    by code_simp
qed

theorem single_character_line_not_reindented_witness:
  "length (trim [SP, SP, 0x78]) \<le> 1 \<and> trimLine True (Some 1) [SP, SP, 0x78] = Inr [0x78]"
proof -
  have h: "length (trim [SP, SP, 0x78]) \<le> 1"
    by (simp add: trim_def trimLeft_def trimRight_def isWhite_def SP_def)
  have "\<forall>toLeast least l. length (trim l) \<le> 1 \<longrightarrow> trimLine toLeast least l = Inr (trim l)"
    using single_character_line_not_reindented by (rule conjunct1)
  with h have "trimLine True (Some 1) [SP, SP, 0x78] = Inr (trim [SP, SP, 0x78])"
    by blast
  with h show ?thesis
    by (simp add: trim_def trimLeft_def trimRight_def isWhite_def SP_def)
qed

text \<open>
  C1. An input made of whitespace characters and line feeds only, the empty string
  included, gives the empty string under every configuration.
\<close>

theorem trimLines_whitespace_only:
  "list_all (\<lambda>c. isWhite c \<or> c = NL) s \<Longrightarrow> trimLines s cfg = Inr []"
  by (simp add: trimLines_char trimmedLines_all_empty)

theorem trimLines_whitespace_only_witness:
  "list_all (\<lambda>c. isWhite c \<or> c = NL) [SP, NL, 0x09, NL, 0x0D]
   \<and> trimLines [SP, NL, 0x09, NL, 0x0D]
        (Some \<lparr>trimLeftToLeastIndent = Some False, trimVerticalStart = None,
               trimVerticalEnd = Some False\<rparr>) = Inr []"
proof -
  have h: "list_all (\<lambda>c. isWhite c \<or> c = NL) [SP, NL, 0x09, NL, 0x0D]"
    by (simp add: isWhite_def SP_def NL_def)
  from trimLines_whitespace_only [OF h] h show ?thesis by blast
qed

text \<open>
  C2. trimLines returns a string for every input and every configuration, and never
  raises: wherever a line is re-indented, its leading-whitespace run length minus the
  least indent is not negative, so the repetition of the space is defined and the
  callback returns a value.
\<close>

theorem trimLines_total:
  "(\<exists>out. trimLines s cfg = Inr out)
   \<and> (\<forall>toLeast m. \<forall>l\<in>set (split_nl s).
         computeLeastIndent toLeast (split_nl s) = Some m \<and> length (trim l) > 1 \<longrightarrow>
           0 \<le> getStringLeftIndentLength l - m
           \<and> repeat_sp (getStringLeftIndentLength l - m)
               = Inr (replicate (nat (getStringLeftIndentLength l - m)) SP)
           \<and> (\<exists>v. trimLine toLeast (Some m) l = Inr v))"
proof (intro conjI allI ballI impI)
  show "\<exists>out. trimLines s cfg = Inr out"
    by (simp add: trimLines_char)
next
  fix toLeast m l
  assume l: "l \<in> set (split_nl s)"
    and h: "computeLeastIndent toLeast (split_nl s) = Some m \<and> length (trim l) > 1"
  from h have "trim l \<noteq> []" by auto
  then have nb: "\<not> isBlank l" by (simp add: trim_Nil_iff)
  from h l nb have le: "m \<le> getStringLeftIndentLength l"
    by (blast intro: computeLeastIndent_lower)
  then show "0 \<le> getStringLeftIndentLength l - m" by simp
  from le show "repeat_sp (getStringLeftIndentLength l - m)
               = Inr (replicate (nat (getStringLeftIndentLength l - m)) SP)"
    by (simp add: repeat_sp_def)
  have "trimLine toLeast (Some m) l = Inr (lineOut toLeast (Some m) l)"
    by (rule trimLine_lineOut) (use le in simp)
  then show "\<exists>v. trimLine toLeast (Some m) l = Inr v" ..
qed

theorem trimLines_total_witness:
  "(\<exists>out. trimLines (js ''  ab\<newline>    cd'') None = Inr out)
   \<and> js ''    cd'' \<in> set (split_nl (js ''  ab\<newline>    cd''))
   \<and> computeLeastIndent True (split_nl (js ''  ab\<newline>    cd'')) = Some 2
   \<and> length (trim (js ''    cd'')) > 1
   \<and> 0 \<le> getStringLeftIndentLength (js ''    cd'') - 2
   \<and> trimLine True (Some 2) (js ''    cd'') = Inr (js ''  cd'')"
proof -
  have a: "js ''    cd'' \<in> set (split_nl (js ''  ab\<newline>    cd''))"
    by code_simp
  have b: "computeLeastIndent True (split_nl (js ''  ab\<newline>    cd'')) = Some 2
      \<and> length (trim (js ''    cd'')) > 1"
    by code_simp
  have c: "trimLine True (Some 2) (js ''    cd'') = Inr (js ''  cd'')"
    by code_simp
  from trimLines_total [of "js ''  ab\<newline>    cd''" None] a b c show ?thesis
    by blast
qed

text \<open>
  C4, as the code has it. With both vertical options off and an input that holds a
  character that is neither whitespace nor a line feed, the output has as many lines as
  the input (line feeds plus one), and its lines are, position by position, what the
  per-line pass returns for the input lines: the array the map returns, each entry the
  value of the callback on that line. No line is removed and nothing else is applied. An
  input of whitespace and line feeds only gives the empty string, a single line, however
  many lines it had.
\<close>

theorem line_count_kept:
  "\<not> resolve trimVerticalStart cfg \<Longrightarrow> \<not> resolve trimVerticalEnd cfg \<Longrightarrow>
     \<exists>out. trimLines s cfg = Inr out \<and>
       (if list_all (\<lambda>c. isWhite c \<or> c = NL) s then out = [] \<and> lineCount out = 1
        else lineCount out = lineCount s \<and>
          length (split_nl out) = length (split_nl s) \<and>
          (\<exists>st. resultArrPreLeadTrail (resolve trimLeftToLeastIndent cfg) (split_nl s)
                  = Inr (split_nl out, st)) \<and>
          (\<forall>i<length (split_nl s).
             trimLine (resolve trimLeftToLeastIndent cfg)
               (computeLeastIndent (resolve trimLeftToLeastIndent cfg) (split_nl s))
               (split_nl s ! i) = Inr (split_nl out ! i)))"
proof (cases "list_all (\<lambda>c. isWhite c \<or> c = NL) s")
  case True
  then have "trimLines s cfg = Inr []"
    by (simp add: trimLines_char trimmedLines_all_empty)
  moreover have "lineCount [] = 1" by (simp add: lineCount_def)
  ultimately show ?thesis using True by simp
next
  case False
  assume v: "\<not> resolve trimVerticalStart cfg" "\<not> resolve trimVerticalEnd cfg"
  let ?tl = "resolve trimLeftToLeastIndent cfg"
  let ?ls = "split_nl s"
  let ?least = "computeLeastIndent ?tl ?ls"
  obtain out where o: "trimLines s cfg = Inr out"
    and l: "split_nl out =
       (if list_all (\<lambda>c. isWhite c \<or> c = NL) s then [[]]
        else keptLines (resolve trimVerticalStart cfg) (resolve trimVerticalEnd cfg)
               (trimmedLines ?tl ?ls))"
    using trimLines_lines by blast
  from False v l have R: "split_nl out = trimmedLines ?tl ?ls"
    by (simp add: keptLines_def)
  then have len: "length (split_nl out) = length ?ls"
    by (simp add: trimmedLines_def)
  then have cnt: "lineCount out = lineCount s"
    by (simp add: length_split_nl)
  obtain st where "resultArrPreLeadTrail ?tl ?ls = Inr (trimmedLines ?tl ?ls, st)"
    using resultArrPreLeadTrail_lines by blast
  then have arr: "\<exists>st. resultArrPreLeadTrail ?tl ?ls = Inr (split_nl out, st)"
    by (auto simp: R)
  have line: "\<forall>i<length ?ls. trimLine ?tl ?least (?ls ! i) = Inr (split_nl out ! i)"
  proof (intro allI impI)
    fix i
    assume i: "i < length ?ls"
    have "trimLine ?tl ?least (?ls ! i) = Inr (lineOut ?tl ?least (?ls ! i))"
      by (rule trimLine_lineOut) (rule computeLeastIndent_lower, assumption, use i in simp)
    with i show "trimLine ?tl ?least (?ls ! i) = Inr (split_nl out ! i)"
      by (simp add: R trimmedLines_def)
  qed
  from o False cnt len arr line show ?thesis by auto
qed

theorem line_count_kept_witness:
  "\<not> resolve trimVerticalStart (Some \<lparr>trimLeftToLeastIndent = None,
       trimVerticalStart = Some False, trimVerticalEnd = Some False\<rparr>)
   \<and> \<not> resolve trimVerticalEnd (Some \<lparr>trimLeftToLeastIndent = None,
       trimVerticalStart = Some False, trimVerticalEnd = Some False\<rparr>)
   \<and> \<not> list_all (\<lambda>c. isWhite c \<or> c = NL) (js ''\<newline>   ab \<newline>  cd\<newline>'')
   \<and> trimLines (js ''\<newline>   ab \<newline>  cd\<newline>'') (Some \<lparr>trimLeftToLeastIndent = None,
         trimVerticalStart = Some False, trimVerticalEnd = Some False\<rparr>)
       = Inr (js ''\<newline> ab\<newline>cd\<newline>'')
   \<and> lineCount (js ''\<newline> ab\<newline>cd\<newline>'') = lineCount (js ''\<newline>   ab \<newline>  cd\<newline>'')
   \<and> 1 < length (split_nl (js ''\<newline>   ab \<newline>  cd\<newline>''))
   \<and> trimLine True (computeLeastIndent True (split_nl (js ''\<newline>   ab \<newline>  cd\<newline>'')))
         (split_nl (js ''\<newline>   ab \<newline>  cd\<newline>'') ! 1)
       = Inr (split_nl (js ''\<newline> ab\<newline>cd\<newline>'') ! 1)"
proof -
  let ?c = "Some \<lparr>trimLeftToLeastIndent = None,
       trimVerticalStart = Some False, trimVerticalEnd = Some False\<rparr>"
  let ?s = "js ''\<newline>   ab \<newline>  cd\<newline>''"
  let ?o = "js ''\<newline> ab\<newline>cd\<newline>''"
  have a: "\<not> resolve trimVerticalStart ?c" and b: "\<not> resolve trimVerticalEnd ?c"
    by (simp_all add: resolve_def)
  have t: "resolve trimLeftToLeastIndent ?c = True" by (simp add: resolve_def)
  have c: "\<not> list_all (\<lambda>c. isWhite c \<or> c = NL) ?s" by code_simp
  have v: "trimLines ?s ?c = Inr ?o" by code_simp
  have n: "1 < length (split_nl ?s)" by code_simp
  from line_count_kept [OF a b, of ?s] c v
  have "lineCount ?o = lineCount ?s \<and>
      (\<forall>i<length (split_nl ?s).
         trimLine (resolve trimLeftToLeastIndent ?c)
           (computeLeastIndent (resolve trimLeftToLeastIndent ?c) (split_nl ?s))
           (split_nl ?s ! i) = Inr (split_nl ?o ! i))"
    by auto
  then have "lineCount ?o = lineCount ?s \<and>
      (\<forall>i<length (split_nl ?s).
         trimLine True (computeLeastIndent True (split_nl ?s)) (split_nl ?s ! i)
           = Inr (split_nl ?o ! i))"
    unfolding t .
  with a b c v n show ?thesis by blast
qed

text \<open>
  The claim without that exception fails: two blank lines, with both vertical options
  off, give the empty string, which is one line.
\<close>

theorem line_count_counterexample:
  "resolve trimVerticalStart (Some \<lparr>trimLeftToLeastIndent = None,
       trimVerticalStart = Some False, trimVerticalEnd = Some False\<rparr>) = False
   \<and> resolve trimVerticalEnd (Some \<lparr>trimLeftToLeastIndent = None,
       trimVerticalStart = Some False, trimVerticalEnd = Some False\<rparr>) = False
   \<and> trimLines [SP, NL, SP] (Some \<lparr>trimLeftToLeastIndent = None,
       trimVerticalStart = Some False, trimVerticalEnd = Some False\<rparr>) = Inr []
   \<and> lineCount [SP, NL, SP] = 2 \<and> lineCount [] = 1"
  by code_simp

text \<open>
  C8. Where a line is re-indented (the option on, the least indent defined, more than
  one character left after trimming), what the per-line pass puts before the trimmed
  content is space characters only, as many as the line's leading run of whitespace is
  longer than the least indent, whichever whitespace characters that run was made of.
\<close>

theorem reindent_prefix_spaces:
  "\<forall>i<length (split_nl s). \<forall>m.
     computeLeastIndent True (split_nl s) = Some m \<and> length (trim (split_nl s ! i)) > 1 \<longrightarrow>
       (\<exists>pre st. resultArrPreLeadTrail True (split_nl s) = Inr (pre, st) \<and>
          0 \<le> m \<and> nat m \<le> leadingWs (split_nl s ! i) \<and>
          pre ! i = replicate (leadingWs (split_nl s ! i) - nat m) SP @ trim (split_nl s ! i))"
proof (intro allI impI)
  fix i m
  let ?ls = "split_nl s"
  assume i: "i < length ?ls"
    and h: "computeLeastIndent True ?ls = Some m \<and> length (trim (?ls ! i)) > 1"
  obtain st where r: "resultArrPreLeadTrail True ?ls = Inr (trimmedLines True ?ls, st)"
    using resultArrPreLeadTrail_lines by blast
  from h have "trim (?ls ! i) \<noteq> []" by auto
  then have nb: "\<not> isBlank (?ls ! i)" by (simp add: trim_Nil_iff)
  from i have mem: "?ls ! i \<in> set ?ls" by simp
  from h mem nb have le: "m \<le> getStringLeftIndentLength (?ls ! i)"
    by (blast intro: computeLeastIndent_lower)
  from h obtain l0 where "getStringLeftIndentLength l0 = m"
    using computeLeastIndent_attained by blast
  then have m0: "0 \<le> m" by (simp add: indent_leadingWs)
  from le m0 have le': "nat m \<le> leadingWs (?ls ! i)"
    by (simp add: indent_leadingWs)
  have "nat (getStringLeftIndentLength (?ls ! i) - m) = leadingWs (?ls ! i) - nat m"
    using m0 by (simp add: indent_leadingWs nat_diff_distrib')
  with h i have "trimmedLines True ?ls ! i =
      replicate (leadingWs (?ls ! i) - nat m) SP @ trim (?ls ! i)"
    by (simp add: trimmedLines_def lineOut_def)
  with r m0 le' show "\<exists>pre st. resultArrPreLeadTrail True ?ls = Inr (pre, st) \<and>
          0 \<le> m \<and> nat m \<le> leadingWs (?ls ! i) \<and>
          pre ! i = replicate (leadingWs (?ls ! i) - nat m) SP @ trim (?ls ! i)"
    by blast
qed

theorem reindent_prefix_spaces_witness:
  "1 < length (split_nl [0x09, 0x61, 0x62, NL, 0x09, 0x09, 0x63, 0x64])
   \<and> computeLeastIndent True (split_nl [0x09, 0x61, 0x62, NL, 0x09, 0x09, 0x63, 0x64]) = Some 1
   \<and> length (trim (split_nl [0x09, 0x61, 0x62, NL, 0x09, 0x09, 0x63, 0x64] ! 1)) > 1
   \<and> leadingWs (split_nl [0x09, 0x61, 0x62, NL, 0x09, 0x09, 0x63, 0x64] ! 1) = 2
   \<and> (\<exists>pre st. resultArrPreLeadTrail True (split_nl [0x09, 0x61, 0x62, NL, 0x09, 0x09, 0x63, 0x64])
          = Inr (pre, st) \<and> pre ! 1 = [SP, 0x63, 0x64])"
proof -
  let ?s = "[0x09, 0x61, 0x62, NL, 0x09, 0x09, 0x63, 0x64] :: jsstring"
  have a: "1 < length (split_nl ?s)" by code_simp
  have b: "computeLeastIndent True (split_nl ?s) = Some 1 \<and> length (trim (split_nl ?s ! 1)) > 1"
    by code_simp
  have c: "leadingWs (split_nl ?s ! 1) = 2" by code_simp
  have d: "trim (split_nl ?s ! 1) = [0x63, 0x64]" by code_simp
  have e: "replicate (leadingWs (split_nl ?s ! 1) - nat 1) SP @ trim (split_nl ?s ! 1)
      = [SP, 0x63, 0x64]"
    unfolding c d by (simp add: numeral_2_eq_2)
  from reindent_prefix_spaces [of ?s] a b
  have "\<exists>pre st. resultArrPreLeadTrail True (split_nl ?s) = Inr (pre, st) \<and>
          pre ! 1 = replicate (leadingWs (split_nl ?s ! 1) - nat 1) SP @ trim (split_nl ?s ! 1)"
    by blast
  then have "\<exists>pre st. resultArrPreLeadTrail True (split_nl ?s) = Inr (pre, st) \<and>
          pre ! 1 = [SP, 0x63, 0x64]"
    unfolding e .
  with a b c show ?thesis by blast
qed

text \<open>
  C7. With trimLeftToLeastIndent off, every non-blank line of the output is the input
  line it comes from with all its leading and trailing whitespace removed, so the
  differences of indentation between lines are gone. The line at position \<open>i\<close> of the
  output comes from position \<open>i\<close> of the input, moved on by the number of blank lines
  dropped at the start when trimVerticalStart is on.
\<close>

theorem no_reindent_lines_trimmed:
  "\<not> resolve trimLeftToLeastIndent cfg \<Longrightarrow>
     \<exists>out. trimLines s cfg = Inr out \<and>
       (\<forall>i<length (split_nl out). \<not> isBlank (split_nl out ! i) \<longrightarrow>
          i + (if resolve trimVerticalStart cfg then length (takeWhile isBlank (split_nl s)) else 0)
            < length (split_nl s) \<and>
          split_nl out ! i =
            trim (split_nl s !
              (i + (if resolve trimVerticalStart cfg
                    then length (takeWhile isBlank (split_nl s)) else 0))))"
proof -
  assume off: "\<not> resolve trimLeftToLeastIndent cfg"
  let ?ls = "split_nl s"
  let ?vs = "resolve trimVerticalStart cfg" and ?ve = "resolve trimVerticalEnd cfg"
  let ?o = "if ?vs then length (takeWhile isBlank ?ls) else 0"
  obtain out where o: "trimLines s cfg = Inr out"
    and l: "split_nl out =
       (if list_all (\<lambda>c. isWhite c \<or> c = NL) s then [[]]
        else keptLines ?vs ?ve (trimmedLines (resolve trimLeftToLeastIndent cfg) ?ls))"
    using trimLines_lines by blast
  have "\<forall>i<length (split_nl out). \<not> isBlank (split_nl out ! i) \<longrightarrow>
      i + ?o < length ?ls \<and> split_nl out ! i = trim (?ls ! (i + ?o))"
  proof (cases "list_all (\<lambda>c. isWhite c \<or> c = NL) s")
    case True
    with l show ?thesis by (simp add: isBlank_def)
  next
    case False
    let ?pre = "trimmedLines False ?ls"
    from False have ne: "\<not> (\<forall>l\<in>set ?pre. l = [])"
      by (simp add: trimmedLines_all_empty)
    from False l off have R: "split_nl out = keptLines ?vs ?ve ?pre" by simp
    have a: "length (takeWhile (\<lambda>l. l = []) ?pre) = length (takeWhile isBlank ?ls)"
      by (rule takeWhile_empty_trimmedLines)
    show ?thesis
    proof (intro allI impI)
      fix i
      assume "i < length (split_nl out)"
      then have "i < length (keptLines ?vs ?ve ?pre)" by (simp add: R)
      from keptLines_nth [OF ne this]
      have "i + ?o < length ?pre \<and> keptLines ?vs ?ve ?pre ! i = ?pre ! (i + ?o)"
        unfolding a .
      then show "i + ?o < length ?ls \<and> split_nl out ! i = trim (?ls ! (i + ?o))"
        by (simp add: R trimmedLines_off)
    qed
  qed
  with o show ?thesis by blast
qed

theorem no_reindent_lines_trimmed_witness:
  "\<not> resolve trimLeftToLeastIndent (Some \<lparr>trimLeftToLeastIndent = Some False,
        trimVerticalStart = None, trimVerticalEnd = None\<rparr>)
   \<and> trimLines (js ''\<newline>   ab \<newline>  '') (Some \<lparr>trimLeftToLeastIndent = Some False,
        trimVerticalStart = None, trimVerticalEnd = None\<rparr>) = Inr (js ''ab'')
   \<and> 0 < length (split_nl (js ''ab'')) \<and> \<not> isBlank (split_nl (js ''ab'') ! 0)
   \<and> split_nl (js ''ab'') ! 0 =
       trim (split_nl (js ''\<newline>   ab \<newline>  '') !
         (0 + (if resolve trimVerticalStart (Some \<lparr>trimLeftToLeastIndent = Some False,
                    trimVerticalStart = None, trimVerticalEnd = None\<rparr>)
               then length (takeWhile isBlank (split_nl (js ''\<newline>   ab \<newline>  ''))) else 0)))"
proof -
  let ?c = "Some \<lparr>trimLeftToLeastIndent = Some False,
        trimVerticalStart = None, trimVerticalEnd = None\<rparr>"
  let ?s = "js ''\<newline>   ab \<newline>  ''"
  have h: "\<not> resolve trimLeftToLeastIndent ?c" by (simp add: resolve_def)
  have v: "trimLines ?s ?c = Inr (js ''ab'')" by code_simp
  have n: "0 < length (split_nl (js ''ab'')) \<and> \<not> isBlank (split_nl (js ''ab'') ! 0)"
    by code_simp
  from no_reindent_lines_trimmed [OF h, of ?s] v n
  have "split_nl (js ''ab'') ! 0 =
       trim (split_nl ?s !
         (0 + (if resolve trimVerticalStart ?c
               then length (takeWhile isBlank (split_nl ?s)) else 0)))"
    by auto
  with h v n show ?thesis by blast
qed

text \<open>
  C10. No line of the output ends in whitespace, under every configuration; and an
  input line that holds whitespace only is the empty string in the array the per-line pass
  returns, from which vertical trimming takes the output lines.
\<close>

theorem output_lines_no_trailing_whitespace:
  "(\<exists>out. trimLines s cfg = Inr out \<and>
      (\<forall>l\<in>set (split_nl out). l = [] \<or> \<not> isWhite (last l)))
   \<and> (\<forall>toLeast. \<exists>pre st. resultArrPreLeadTrail toLeast (split_nl s) = Inr (pre, st) \<and>
         (\<forall>i<length (split_nl s). isBlank (split_nl s ! i) \<longrightarrow> pre ! i = []))"
proof (intro conjI allI)
  let ?vs = "resolve trimVerticalStart cfg" and ?ve = "resolve trimVerticalEnd cfg"
  let ?pre = "trimmedLines (resolve trimLeftToLeastIndent cfg) (split_nl s)"
  obtain out where o: "trimLines s cfg = Inr out"
    and l: "split_nl out =
       (if list_all (\<lambda>c. isWhite c \<or> c = NL) s then [[]] else keptLines ?vs ?ve ?pre)"
    using trimLines_lines by blast
  have "\<forall>l\<in>set (split_nl out). l = [] \<or> \<not> isWhite (last l)"
  proof
    fix r
    assume r: "r \<in> set (split_nl out)"
    show "r = [] \<or> \<not> isWhite (last r)"
    proof (cases "list_all (\<lambda>c. isWhite c \<or> c = NL) s")
      case True
      with l r show ?thesis by simp
    next
      case False
      with l r have "r \<in> set ?pre" using set_keptLines by auto
      then show ?thesis
        using lineOut_no_trailing by (auto simp: trimmedLines_def)
    qed
  qed
  with o show "\<exists>out. trimLines s cfg = Inr out \<and>
      (\<forall>l\<in>set (split_nl out). l = [] \<or> \<not> isWhite (last l))"
    by blast
next
  fix toLeast
  obtain st where r: "resultArrPreLeadTrail toLeast (split_nl s)
      = Inr (trimmedLines toLeast (split_nl s), st)"
    using resultArrPreLeadTrail_lines by blast
  have "\<forall>i<length (split_nl s). isBlank (split_nl s ! i) \<longrightarrow>
      trimmedLines toLeast (split_nl s) ! i = []"
    by (simp add: trimmedLines_def lineOut_Nil_iff)
  with r show "\<exists>pre st. resultArrPreLeadTrail toLeast (split_nl s) = Inr (pre, st) \<and>
         (\<forall>i<length (split_nl s). isBlank (split_nl s ! i) \<longrightarrow> pre ! i = [])"
    by blast
qed

theorem output_lines_no_trailing_whitespace_witness:
  "trimLines (js ''  ab  \<newline>   \<newline> c '') None = Inr (js '' ab\<newline>\<newline>c'')
   \<and> js '' ab'' \<in> set (split_nl (js '' ab\<newline>\<newline>c''))
   \<and> \<not> isWhite (last (js '' ab''))
   \<and> 1 < length (split_nl (js ''  ab  \<newline>   \<newline> c ''))
   \<and> isBlank (split_nl (js ''  ab  \<newline>   \<newline> c '') ! 1)
   \<and> (\<exists>pre st. resultArrPreLeadTrail True (split_nl (js ''  ab  \<newline>   \<newline> c ''))
         = Inr (pre, st) \<and> pre ! 1 = [])"
proof -
  let ?s = "js ''  ab  \<newline>   \<newline> c ''"
  have v: "trimLines ?s None = Inr (js '' ab\<newline>\<newline>c'')" by code_simp
  have m: "js '' ab'' \<in> set (split_nl (js '' ab\<newline>\<newline>c''))" by code_simp
  have e: "js '' ab'' \<noteq> []" by (simp add: js_simps)
  have b: "1 < length (split_nl ?s) \<and> isBlank (split_nl ?s ! 1)" by code_simp
  from output_lines_no_trailing_whitespace [of ?s None] v
  have "\<forall>l\<in>set (split_nl (js '' ab\<newline>\<newline>c'')). l = [] \<or> \<not> isWhite (last l)"
    by auto
  with m e have w: "\<not> isWhite (last (js '' ab''))" by blast
  from output_lines_no_trailing_whitespace [of ?s None] b
  have "\<exists>pre st. resultArrPreLeadTrail True (split_nl ?s) = Inr (pre, st) \<and> pre ! 1 = []"
    by blast
  with v m w b show ?thesis by blast
qed

text \<open>
  C3. With trimLeftToLeastIndent on, if the output has a non-blank line, then the least
  length of the leading run of whitespace over its non-blank lines is 0.
\<close>

theorem least_output_indent_zero:
  "resolve trimLeftToLeastIndent cfg \<Longrightarrow>
     \<exists>out. trimLines s cfg = Inr out \<and>
       ((\<exists>l\<in>set (split_nl out). \<not> isBlank l) \<longrightarrow>
          Min (leadingWs ` {l \<in> set (split_nl out). \<not> isBlank l}) = 0)"
proof -
  assume on: "resolve trimLeftToLeastIndent cfg"
  let ?vs = "resolve trimVerticalStart cfg" and ?ve = "resolve trimVerticalEnd cfg"
  let ?pre = "trimmedLines True (split_nl s)"
  obtain out where o: "trimLines s cfg = Inr out"
    and l: "split_nl out =
       (if list_all (\<lambda>c. isWhite c \<or> c = NL) s then [[]]
        else keptLines ?vs ?ve (trimmedLines (resolve trimLeftToLeastIndent cfg) (split_nl s)))"
    using trimLines_lines by blast
  have "Min (leadingWs ` {l \<in> set (split_nl out). \<not> isBlank l}) = 0"
    if ex: "\<exists>l\<in>set (split_nl out). \<not> isBlank l"
  proof -
    have nb: "\<not> list_all (\<lambda>c. isWhite c \<or> c = NL) s"
    proof
      assume "list_all (\<lambda>c. isWhite c \<or> c = NL) s"
      with l have "split_nl out = [[]]" by simp
      with ex show False by (simp add: isBlank_def)
    qed
    with l on have R: "split_nl out = keptLines ?vs ?ve ?pre" by simp
    from nb have "\<not> (\<forall>l\<in>set (split_nl s). isBlank l)"
      by (simp add: split_nl_all_blank)
    then obtain r where r: "r \<in> set ?pre" "r \<noteq> []" "\<not> isBlank r" "leadingWs r = 0"
      using zero_indent_line by blast
    then have "r \<in> set (split_nl out)" by (simp add: R keptLines_keeps)
    with r have "0 \<in> leadingWs ` {l \<in> set (split_nl out). \<not> isBlank l}" by force
    moreover have "finite (leadingWs ` {l \<in> set (split_nl out). \<not> isBlank l})" by simp
    ultimately have "Min (leadingWs ` {l \<in> set (split_nl out). \<not> isBlank l}) \<le> 0"
      by (rule Min_le [rotated])
    then show ?thesis by simp
  qed
  with o show ?thesis by blast
qed

theorem least_output_indent_zero_witness:
  "resolve trimLeftToLeastIndent (Some \<lparr>trimLeftToLeastIndent = Some True,
        trimVerticalStart = Some False, trimVerticalEnd = None\<rparr>)
   \<and> trimLines (js ''\<newline>    ab\<newline>  c\<newline>   de'') (Some \<lparr>trimLeftToLeastIndent = Some True,
        trimVerticalStart = Some False, trimVerticalEnd = None\<rparr>)
       = Inr (js ''\<newline>  ab\<newline>c\<newline> de'')
   \<and> (\<exists>l\<in>set (split_nl (js ''\<newline>  ab\<newline>c\<newline> de'')). \<not> isBlank l)
   \<and> Min (leadingWs ` {l \<in> set (split_nl (js ''\<newline>  ab\<newline>c\<newline> de'')). \<not> isBlank l}) = 0"
proof -
  let ?c = "Some \<lparr>trimLeftToLeastIndent = Some True,
        trimVerticalStart = Some False, trimVerticalEnd = None\<rparr>"
  let ?s = "js ''\<newline>    ab\<newline>  c\<newline>   de''"
  let ?o = "js ''\<newline>  ab\<newline>c\<newline> de''"
  have h: "resolve trimLeftToLeastIndent ?c" by (simp add: resolve_def)
  have v: "trimLines ?s ?c = Inr ?o" by code_simp
  have "js ''c'' \<in> set (split_nl ?o) \<and> \<not> isBlank (js ''c'')" by code_simp
  then have e: "\<exists>l\<in>set (split_nl ?o). \<not> isBlank l" by blast
  from least_output_indent_zero [OF h, of ?s] v e
  have "Min (leadingWs ` {l \<in> set (split_nl ?o). \<not> isBlank l}) = 0" by auto
  with h v e show ?thesis by blast
qed

text \<open>
  C5. Under the default configuration (no configuration object, so all three options
  on) trimLines is idempotent: applied to its own result it returns that result.
\<close>

theorem trimLines_idempotent:
  "\<exists>out. trimLines s None = Inr out \<and> trimLines out None = Inr out"
proof (cases "list_all (\<lambda>c. isWhite c \<or> c = NL) s")
  case True
  have blank: "\<And>x. list_all (\<lambda>c. isWhite c \<or> c = NL) x \<Longrightarrow> trimLines x None = Inr []"
    by (simp add: trimLines_char trimmedLines_all_empty)
  from True have "trimLines s None = Inr []" by (rule blank)
  moreover have "trimLines [] None = Inr []" by (rule blank) simp
  ultimately show ?thesis by simp
next
  case False
  let ?ls = "split_nl s"
  let ?pre = "trimmedLines True ?ls"
  let ?R = "keptLines True True ?pre"
  have res: "resolve trimLeftToLeastIndent None" "resolve trimVerticalStart None"
    "resolve trimVerticalEnd None"
    by (simp_all add: resolve_def)
  from False have nb: "\<not> (\<forall>l\<in>set ?ls. isBlank l)" by (simp add: split_nl_all_blank)
  from False have ne: "\<not> (\<forall>l\<in>set ?pre. l = [])" by (simp add: trimmedLines_all_empty)
  then have first: "trimLines s None = Inr (join_nl ?R)"
    by (auto simp: trimLines_char Let_def res)
  from ne have "?R \<noteq> []" by (rule keptLines_not_Nil)
  moreover have "\<And>r. r \<in> set ?R \<Longrightarrow> NL \<notin> set r"
    using set_keptLines trimmedLines_no_NL by blast
  ultimately have sp: "split_nl (join_nl ?R) = ?R" by (rule split_join_nl)
  have fx: "trimmedLines True ?R = ?R" using nb by (rule trimmedLines_fixed)
  from ne obtain r where "r \<in> set ?pre" "r \<noteq> []" by blast
  then have "r \<in> set ?R" "r \<noteq> []" by (simp_all add: keptLines_keeps)
  then have ne2: "\<not> (\<forall>l\<in>set ?R. l = [])" by blast
  have "trimLines (join_nl ?R) None = Inr (join_nl (keptLines True True ?R))"
    using ne2 by (auto simp: trimLines_char Let_def res sp fx)
  then have "trimLines (join_nl ?R) None = Inr (join_nl ?R)"
    by (simp add: keptLines_idem)
  with first show ?thesis by blast
qed

end
